theory Spec2Isabelle
  imports Complex_Main "HOL-Library.Multiset"
begin

section \<open>Python values: errors, sequence objects, indexing\<close>

text \<open>
  The exceptions the module can raise: \<open>IndexError\<close> from indexing a deque out of
  range, \<open>ValueError\<close> from \<open>random.randint\<close> on an empty range, and the module's own
  \<open>StatisticsError\<close> (a subclass of \<open>ValueError\<close> in the source, a constructor of its
  own here).
\<close>

datatype error = IndexError | ValueError | StatisticsError

text \<open>
  A sequence object is a list (standing for every iterable that is not a deque) or a
  \<open>collections.deque\<close>; \<open>quickselect\<close> tells them apart with \<open>isinstance\<close>.
\<close>

datatype 'a pyobj = PyList "'a list" | PyDeque "'a list"

fun items :: "'a pyobj \<Rightarrow> 'a list" where
  "items (PyList xs) = xs"
| "items (PyDeque xs) = xs"

fun is_deque :: "'a pyobj \<Rightarrow> bool" where
  "is_deque (PyList xs) = False"
| "is_deque (PyDeque xs) = True"

text \<open>
  Python indexing \<open>q[i]\<close>: a negative index counts from the end, and an index outside
  \<open>[-len, len - 1]\<close> raises \<open>IndexError\<close>.
\<close>

definition norm_index :: "'a list \<Rightarrow> int \<Rightarrow> error + nat" where
  "norm_index q i =
     (let n = int (length q); j = (if i < 0 then i + n else i)
      in if 0 \<le> j \<and> j < n then Inr (nat j) else Inl IndexError)"

definition getitem :: "'a list \<Rightarrow> int \<Rightarrow> error + 'a" where
  "getitem q i = (case norm_index q i of Inl e \<Rightarrow> Inl e | Inr j \<Rightarrow> Inr (q ! j))"

definition setitem :: "'a list \<Rightarrow> int \<Rightarrow> 'a \<Rightarrow> error + 'a list" where
  "setitem q i v = (case norm_index q i of Inl e \<Rightarrow> Inl e | Inr j \<Rightarrow> Inr (q[j := v]))"

text \<open>
  The tuple assignment \<open>q[a], q[b] = q[b], q[a]\<close>: the right-hand side is read first
  (\<open>q[b]\<close>, then \<open>q[a]\<close>), then \<open>q[a]\<close> and \<open>q[b]\<close> are stored in this order.
\<close>

definition swap_items :: "'a list \<Rightarrow> int \<Rightarrow> int \<Rightarrow> error + 'a list" where
  "swap_items q a b =
     (case getitem q b of Inl e \<Rightarrow> Inl e
      | Inr x \<Rightarrow>
          (case getitem q a of Inl e \<Rightarrow> Inl e
           | Inr y \<Rightarrow>
               (case setitem q a x of Inl e \<Rightarrow> Inl e
                | Inr q1 \<Rightarrow> setitem q1 b y)))"

section \<open>partition\<close>

text \<open>
  The loop \<open>for i, value in enumerate(q[j] for j in range(left, right))\<close>: the counter
  \<open>i\<close> of \<open>enumerate\<close> starts at 0, the generator reads \<open>q[left + i]\<close> when the
  iteration reaches it, and the body swaps \<open>q[store_index]\<close> with \<open>q[i]\<close>. The function
  returns the buffer as the loop leaves it, with the store index or the exception.
\<close>

fun partition_loop ::
  "'a::linorder list \<Rightarrow> int \<Rightarrow> 'a \<Rightarrow> int \<Rightarrow> nat list \<Rightarrow> 'a list \<times> (error + int)" where
  "partition_loop q left pivot_value store_index [] = (q, Inr store_index)"
| "partition_loop q left pivot_value store_index (i # rest) =
     (case getitem q (left + int i) of
        Inl e \<Rightarrow> (q, Inl e)
      | Inr val \<Rightarrow>
          if val < pivot_value then
            (case swap_items q store_index (int i) of
               Inl e \<Rightarrow> (q, Inl e)
             | Inr q' \<Rightarrow> partition_loop q' left pivot_value (store_index + 1) rest)
          else partition_loop q left pivot_value store_index rest)"

definition partition_py ::
  "'a::linorder list \<Rightarrow> int \<Rightarrow> int \<Rightarrow> int \<Rightarrow> 'a list \<times> (error + int)" where
  "partition_py q left right pivot_index =
     (case getitem q pivot_index of
        Inl e \<Rightarrow> (q, Inl e)
      | Inr pivot_value \<Rightarrow>
          (case swap_items q pivot_index right of
             Inl e \<Rightarrow> (q, Inl e)
           | Inr q1 \<Rightarrow>
               (case partition_loop q1 left pivot_value left [0..<nat (right - left)] of
                  (q2, Inl e) \<Rightarrow> (q2, Inl e)
                | (q2, Inr store_index) \<Rightarrow>
                    (case swap_items q2 right store_index of
                       Inl e \<Rightarrow> (q2, Inl e)
                     | Inr q3 \<Rightarrow> (q3, Inr store_index)))))"

text \<open>
  The index expressions that \<open>partition\<close> evaluates in \<open>q[...]\<close>, in the order of the
  statements that use them: the same traversal as \<open>partition_loop\<close> and \<open>partition\<close>,
  collecting the indices instead of the buffer.
\<close>

fun partition_loop_indices ::
  "'a::linorder list \<Rightarrow> int \<Rightarrow> 'a \<Rightarrow> int \<Rightarrow> nat list \<Rightarrow> int list" where
  "partition_loop_indices q left pivot_value store_index [] = []"
| "partition_loop_indices q left pivot_value store_index (i # rest) =
     (left + int i) #
     (case getitem q (left + int i) of
        Inl e \<Rightarrow> []
      | Inr val \<Rightarrow>
          if val < pivot_value then
            int i # store_index #
            (case swap_items q store_index (int i) of
               Inl e \<Rightarrow> []
             | Inr q' \<Rightarrow> partition_loop_indices q' left pivot_value (store_index + 1) rest)
          else partition_loop_indices q left pivot_value store_index rest)"

definition partition_indices :: "'a::linorder list \<Rightarrow> int \<Rightarrow> int \<Rightarrow> int \<Rightarrow> int list" where
  "partition_indices q left right pivot_index =
     pivot_index #
     (case getitem q pivot_index of
        Inl e \<Rightarrow> []
      | Inr pivot_value \<Rightarrow>
          right # pivot_index #
          (case swap_items q pivot_index right of
             Inl e \<Rightarrow> []
           | Inr q1 \<Rightarrow>
               partition_loop_indices q1 left pivot_value left [0..<nat (right - left)] @
               (case partition_loop q1 left pivot_value left [0..<nat (right - left)] of
                  (q2, Inl e) \<Rightarrow> []
                | (q2, Inr store_index) \<Rightarrow> [store_index, right])))"

section \<open>The store and the random source\<close>

text \<open>
  Objects live in a store, a list indexed by address; a new object is appended and its
  address is the length of the store before. The state also counts the draws made so far
  from the process-wide random source, whose values are given by a function
  \<open>rs\<close> from the number of the draw.
\<close>

record 'a world =
  heap :: "'a pyobj list"
  draws :: nat

text \<open>
  \<open>random.randint(a, b)\<close> raises \<open>ValueError\<close> on an empty range and otherwise returns
  an integer of \<open>[a, b]\<close>; each of them is reached by some value of the draw.
\<close>

definition randint :: "(nat \<Rightarrow> nat) \<Rightarrow> nat \<Rightarrow> int \<Rightarrow> int \<Rightarrow> error + int" where
  "randint rs n a b =
     (if b < a then Inl ValueError else Inr (a + int (rs n mod nat (b - a + 1))))"

text \<open>
  Lines 28 to 30 of \<open>quickselect\<close>: \<open>q = l\<close>, and when \<open>l\<close> is not a deque,
  \<open>q = deque(l)\<close>, a new object holding the items of \<open>l\<close>.
\<close>

definition as_deque :: "'a world \<Rightarrow> nat \<Rightarrow> 'a world \<times> nat" where
  "as_deque w l =
     (if is_deque (heap w ! l) then (w, l)
      else (w\<lparr>heap := heap w @ [PyDeque (items (heap w ! l))]\<rparr>, length (heap w)))"

section \<open>quickselect\<close>

text \<open>
  The recursion of \<open>quickselect\<close> ends for every argument: \<open>randint\<close> returns a
  pivot only for a non-empty range, and the store index that \<open>partition\<close> returns
  lies in \<open>[left, right]\<close>, so both sub-ranges are shorter than \<open>[left, right]\<close>.
  The definition of \<open>quickselect\<close> rests on these three facts.
\<close>

lemma partition_loop_store:
  "partition_loop q left pv s js = (b, Inr p) \<Longrightarrow> s \<le> p \<and> p \<le> s + int (length js)"
proof (induction js arbitrary: q s)
  case Nil
  then show ?case by simp
next
  case (Cons i js)
  show ?case
  proof (cases "getitem q (left + int i)")
    case (Inl e)
    with Cons.prems show ?thesis by simp
  next
    case (Inr val)
    show ?thesis
    proof (cases "val < pv")
      case False
      with Inr Cons.prems have "partition_loop q left pv s js = (b, Inr p)" by simp
      from Cons.IH [OF this] show ?thesis by simp
    next
      case True
      show ?thesis
      proof (cases "swap_items q s (int i)")
        case (Inl e)
        with Inr True Cons.prems show ?thesis by simp
      next
        case (Inr q')
        with \<open>getitem q (left + int i) = Inr val\<close> True Cons.prems
        have "partition_loop q' left pv (s + 1) js = (b, Inr p)" by simp
        from Cons.IH [OF this] show ?thesis by simp
      qed
    qed
  qed
qed

lemma partition_py_store:
  assumes "partition_py q left right pivot_index = (b, Inr p)" and "left \<le> right"
  shows "left \<le> p \<and> p \<le> right"
  using assms
  by (auto simp: partition_py_def split: sum.splits prod.splits dest!: partition_loop_store)

lemma randint_range: "randint rs n a b = Inr pv \<Longrightarrow> a \<le> pv \<and> pv \<le> b"
proof -
  assume h: "randint rs n a b = Inr pv"
  then have ab: "a \<le> b" by (auto simp: randint_def split: if_splits)
  then have "rs n mod nat (b - a + 1) < nat (b - a + 1)" by simp
  then have "int (rs n mod nat (b - a + 1)) < b - a + 1" by linarith
  with h ab show ?thesis by (auto simp: randint_def split: if_splits)
qed

text \<open>
  \<open>quickselect(l, left, right, k)\<close> on the object at address \<open>l\<close>. It returns the
  state it leaves (objects and number of draws) with the value or the exception. The
  recursive calls pass the deque \<open>q\<close>, which \<open>partition\<close> has rearranged in place.
\<close>

function quickselect ::
  "(nat \<Rightarrow> nat) \<Rightarrow> 'a::linorder world \<Rightarrow> nat \<Rightarrow> int \<Rightarrow> int \<Rightarrow> int \<Rightarrow> 'a world \<times> (error + 'a)" where
  "quickselect rs w l left right k =
     (case as_deque w l of
        (w1, q) \<Rightarrow>
          if left = right then (w1, getitem (items (heap w1 ! q)) left)
          else
            (case randint rs (draws w1) left right of
               Inl e \<Rightarrow> (w1, Inl e)
             | Inr r \<Rightarrow>
                 (case partition_py (items (heap w1 ! q)) left right r of
                    (b, Inl e) \<Rightarrow> (w1\<lparr>heap := (heap w1)[q := PyDeque b], draws := draws w1 + 1\<rparr>, Inl e)
                  | (b, Inr pivot_index) \<Rightarrow>
                      (let w2 = w1\<lparr>heap := (heap w1)[q := PyDeque b], draws := draws w1 + 1\<rparr>
                       in if k = pivot_index then (w2, getitem b k)
                          else if k < pivot_index then quickselect rs w2 q left (pivot_index - 1) k
                          else quickselect rs w2 q (pivot_index + 1) right k))))"
  by pat_completeness auto
termination
proof (relation "measure (\<lambda>(rs, w, l, left, right, k). nat (right - left))", goal_cases)
  case 1
  show ?case by simp
next
  case (2 rs w l left right k w1 q r b res pivot_index w2)
  from 2(3) have "left \<le> right" using randint_range by fastforce
  with 2(4,5) have "left \<le> pivot_index \<and> pivot_index \<le> right"
    using partition_py_store [of "items (heap w1 ! q)" left right r b pivot_index] by simp
  with 2(2) show ?case by simp
next
  case (3 rs w l left right k w1 q r b res pivot_index w2)
  from 3(3) have "left \<le> right" using randint_range by fastforce
  with 3(4,5) have "left \<le> pivot_index \<and> pivot_index \<le> right"
    using partition_py_store [of "items (heap w1 ! q)" left right r b pivot_index] by simp
  with 3(2) show ?case by simp
qed

text \<open>The defining equation is unfolded on demand only.\<close>

declare quickselect.simps [simp del]

section \<open>median\<close>

text \<open>
  \<open>median(data)\<close> on the object at address \<open>data\<close>: \<open>list(data)\<close> is a new list,
  to which the local name is rebound. In the even case the left operand of \<open>+\<close> is
  evaluated first, and an exception there ends the call.
\<close>

definition median ::
  "(nat \<Rightarrow> nat) \<Rightarrow> 'a::linordered_field world \<Rightarrow> nat \<Rightarrow> 'a world \<times> (error + 'a)" where
  "median rs w dat =
     (let d = length (heap w);
          w1 = w\<lparr>heap := heap w @ [PyList (items (heap w ! dat))]\<rparr>;
          n = int (length (items (heap w1 ! d)))
      in if n = 0 then (w1, Inl StatisticsError)
         else if n mod 2 = 1 then quickselect rs w1 d 0 (n - 1) (n div 2)
         else
           (let i = n div 2
            in case quickselect rs w1 d 0 (n - 1) (i - 1) of
                 (w2, Inl e) \<Rightarrow> (w2, Inl e)
               | (w2, Inr x) \<Rightarrow>
                   (case quickselect rs w2 d 0 (n - 1) i of
                      (w3, Inl e) \<Rightarrow> (w3, Inl e)
                    | (w3, Inr y) \<Rightarrow> (w3, Inr ((x + y) / 2)))))"

text \<open>A random source given by its first draws; every later draw is 0.\<close>

definition draws_of :: "nat list \<Rightarrow> nat \<Rightarrow> nat" where
  "draws_of ds n = (if n < length ds then ds ! n else 0)"

section \<open>Facts about indexing and partition\<close>

lemma norm_index_range: "norm_index q i = Inr j \<Longrightarrow> j < length q"
  by (auto simp: norm_index_def Let_def split: if_splits)

lemma norm_index_valid: "0 \<le> i \<Longrightarrow> i < int (length q) \<Longrightarrow> norm_index q i = Inr (nat i)"
  by (simp add: norm_index_def)

lemma getitem_valid: "0 \<le> i \<Longrightarrow> i < int (length q) \<Longrightarrow> getitem q i = Inr (q ! nat i)"
  by (simp add: getitem_def norm_index_valid)

lemma getitem_mem: "getitem q i = Inr v \<Longrightarrow> v \<in> set q"
  by (auto simp: getitem_def split: sum.splits dest: norm_index_range)

lemma getitem_error: "getitem q i = Inl e \<Longrightarrow> e = IndexError"
  by (auto simp: getitem_def norm_index_def Let_def split: sum.splits if_splits)

lemma swap_items_Inr:
  assumes "swap_items q a b = Inr q'"
  shows "\<exists>i j. norm_index q a = Inr i \<and> norm_index q b = Inr j \<and> q' = q[i := q ! j, j := q ! i]"
proof (cases "norm_index q b")
  case (Inl e)
  with assms show ?thesis unfolding swap_items_def getitem_def by simp
next
  case j: (Inr j)
  show ?thesis
  proof (cases "norm_index q a")
    case (Inl e)
    with assms j show ?thesis unfolding swap_items_def getitem_def by simp
  next
    case i: (Inr i)
    have "norm_index (q[i := q ! j]) b = Inr j" using j by (simp add: norm_index_def)
    with assms i j have "q' = q[i := q ! j, j := q ! i]"
      unfolding swap_items_def getitem_def setitem_def by simp
    with i j show ?thesis by simp
  qed
qed

lemma swap_items_error: "swap_items q a b = Inl e \<Longrightarrow> e = IndexError"
  by (auto simp: swap_items_def getitem_def setitem_def norm_index_def Let_def
      split: sum.splits if_splits)

lemma swap_items_length: "swap_items q a b = Inr q' \<Longrightarrow> length q' = length q"
  by (auto dest: swap_items_Inr)

lemma swap_items_mset: "swap_items q a b = Inr q' \<Longrightarrow> mset q' = mset q"
proof -
  assume "swap_items q a b = Inr q'"
  then obtain i j where "i < length q" "j < length q" "q' = q[i := q ! j, j := q ! i]"
    by (auto dest!: swap_items_Inr dest: norm_index_range)
  then show ?thesis by (simp add: mset_swap)
qed

lemma swap_items_valid:
  assumes "0 \<le> a" "a < int (length q)" "0 \<le> b" "b < int (length q)"
  shows "swap_items q a b = Inr (q[nat a := q ! nat b, nat b := q ! nat a])"
  using assms
  by (simp add: swap_items_def getitem_def setitem_def norm_index_valid)

lemma partition_loop_mset:
  "partition_loop q left pv s js = (b, r) \<Longrightarrow> mset b = mset q"
proof (induction js arbitrary: q s)
  case Nil
  then show ?case by simp
next
  case (Cons i js)
  then show ?case
    by (auto split: sum.splits if_splits dest: swap_items_mset)
qed

lemma partition_loop_error:
  "partition_loop q left pv s js = (b, Inl e) \<Longrightarrow> e = IndexError"
proof (induction js arbitrary: q s)
  case Nil
  then show ?case by simp
next
  case (Cons i js)
  then show ?case
    by (auto split: sum.splits if_splits dest: swap_items_error getitem_error)
qed

lemma partition_loop_valid:
  assumes "0 \<le> left" "0 \<le> s" "s + int (length js) \<le> int (length q)"
    and "\<forall>i\<in>set js. left + int i < int (length q)"
  shows "\<exists>b p. partition_loop q left pv s js = (b, Inr p)"
  using assms
proof (induction js arbitrary: q s)
  case Nil
  then show ?case by simp
next
  case (Cons i js)
  from Cons.prems have i: "left + int i < int (length q)" "int i < int (length q)" by auto
  with Cons.prems have g: "getitem q (left + int i) = Inr (q ! nat (left + int i))"
    by (simp add: getitem_valid)
  show ?case
  proof (cases "q ! nat (left + int i) < pv")
    case False
    have "\<exists>b p. partition_loop q left pv s js = (b, Inr p)"
      using Cons.prems by (intro Cons.IH) auto
    with g False show ?thesis by simp
  next
    case True
    from Cons.prems have s: "s < int (length q)" by simp
    define q' where "q' = q[nat s := q ! i, i := q ! nat s]"
    have sw: "swap_items q s (int i) = Inr q'"
      using swap_items_valid [of s q "int i"] Cons.prems(2) s i by (simp add: q'_def)
    have len: "length q' = length q" by (simp add: q'_def)
    have "\<exists>b p. partition_loop q' left pv (s + 1) js = (b, Inr p)"
      using Cons.prems len by (intro Cons.IH) auto
    with g True sw show ?thesis by simp
  qed
qed

lemma partition_py_mset: "partition_py q left right pivot_index = (b, r) \<Longrightarrow> mset b = mset q"
  by (auto simp: partition_py_def split: sum.splits prod.splits
      dest!: swap_items_mset partition_loop_mset)

lemma partition_py_error: "partition_py q left right pivot_index = (b, Inl e) \<Longrightarrow> e = IndexError"
  by (auto simp: partition_py_def split: sum.splits prod.splits
      dest: swap_items_error partition_loop_error getitem_error)

lemma partition_py_valid:
  assumes "0 \<le> left" "left \<le> pivot_index" "pivot_index \<le> right" "right < int (length q)"
  shows "\<exists>b p. partition_py q left right pivot_index = (b, Inr p)"
proof -
  have g: "getitem q pivot_index = Inr (q ! nat pivot_index)"
    using assms by (simp add: getitem_valid)
  obtain q1 where sw: "swap_items q pivot_index right = Inr q1"
    using swap_items_valid [of pivot_index q right] assms by auto
  then have len1: "length q1 = length q" by (rule swap_items_length)
  have "\<exists>b p. partition_loop q1 left (q ! nat pivot_index) left [0..<nat (right - left)] = (b, Inr p)"
    using assms len1 by (intro partition_loop_valid) auto
  then obtain q2 p where lp:
    "partition_loop q1 left (q ! nat pivot_index) left [0..<nat (right - left)] = (q2, Inr p)"
    by blast
  from partition_loop_store [OF lp] assms have p: "left \<le> p" "p \<le> right" by auto
  from partition_loop_mset [OF lp] have "length q2 = length q1" by (metis size_mset)
  with len1 assms p obtain q3 where "swap_items q2 right p = Inr q3"
    using swap_items_valid [of right q2 p] by auto
  with g sw lp show ?thesis by (simp add: partition_py_def)
qed

lemma partition_loop_indices_valid:
  assumes "0 \<le> left" "0 \<le> s" "s + int (length js) \<le> int (length q)"
    and "\<forall>i\<in>set js. left + int i < int (length q)"
  shows "\<forall>x\<in>set (partition_loop_indices q left pv s js). 0 \<le> x \<and> x < int (length q)"
  using assms
proof (induction js arbitrary: q s)
  case Nil
  then show ?case by simp
next
  case (Cons i js)
  from Cons.prems have i: "left + int i < int (length q)" "int i < int (length q)" by auto
  with Cons.prems have g: "getitem q (left + int i) = Inr (q ! nat (left + int i))"
    by (simp add: getitem_valid)
  show ?case
  proof (cases "q ! nat (left + int i) < pv")
    case False
    have "\<forall>x\<in>set (partition_loop_indices q left pv s js). 0 \<le> x \<and> x < int (length q)"
      using Cons.prems by (intro Cons.IH) auto
    with g False i Cons.prems(1) show ?thesis by simp
  next
    case True
    from Cons.prems have s: "s < int (length q)" by simp
    define q' where "q' = q[nat s := q ! i, i := q ! nat s]"
    have sw: "swap_items q s (int i) = Inr q'"
      using swap_items_valid [of s q "int i"] Cons.prems(2) s i by (simp add: q'_def)
    have len: "length q' = length q" by (simp add: q'_def)
    have "\<forall>x\<in>set (partition_loop_indices q' left pv (s + 1) js). 0 \<le> x \<and> x < int (length q')"
      using Cons.prems len by (intro Cons.IH) auto
    with g True sw i s len Cons.prems(1,2) show ?thesis by simp
  qed
qed

lemma partition_indices_valid:
  assumes "0 \<le> left" "left \<le> pivot_index" "pivot_index \<le> right" "right < int (length q)"
  shows "\<forall>x\<in>set (partition_indices q left right pivot_index). 0 \<le> x \<and> x < int (length q)"
proof -
  have g: "getitem q pivot_index = Inr (q ! nat pivot_index)"
    using assms by (simp add: getitem_valid)
  obtain q1 where sw: "swap_items q pivot_index right = Inr q1"
    using swap_items_valid [of pivot_index q right] assms by auto
  then have len1: "length q1 = length q" by (rule swap_items_length)
  have li: "\<forall>x\<in>set (partition_loop_indices q1 left (q ! nat pivot_index) left [0..<nat (right - left)]).
      0 \<le> x \<and> x < int (length q1)"
    using assms len1 by (intro partition_loop_indices_valid) auto
  obtain q2 res where lp:
    "partition_loop q1 left (q ! nat pivot_index) left [0..<nat (right - left)] = (q2, res)"
    by (cases "partition_loop q1 left (q ! nat pivot_index) left [0..<nat (right - left)]")
  show ?thesis
  proof (cases res)
    case (Inl e)
    with g sw lp li len1 assms show ?thesis by (simp add: partition_indices_def)
  next
    case (Inr p)
    from partition_loop_store [OF lp [unfolded Inr]] assms have "left \<le> p" "p \<le> right" by auto
    with g sw lp li len1 assms Inr show ?thesis by (simp add: partition_indices_def)
  qed
qed

section \<open>Facts about quickselect\<close>

lemma quickselect_list:
  assumes "\<not> is_deque (heap w ! l)"
  shows "quickselect rs w l left right k =
    quickselect rs (w\<lparr>heap := heap w @ [PyDeque (items (heap w ! l))]\<rparr>) (length (heap w)) left right k"
  using assms
  by (simp add: quickselect.simps [of rs w l]
      quickselect.simps [of rs "w\<lparr>heap := heap w @ [PyDeque (items (heap w ! l))]\<rparr>" "length (heap w)"]
      as_deque_def)

lemma quickselect_deque:
  assumes "is_deque (heap w ! l)"
  shows "quickselect rs w l left right k =
    (if left = right then (w, getitem (items (heap w ! l)) left)
     else
       (case randint rs (draws w) left right of
          Inl e \<Rightarrow> (w, Inl e)
        | Inr r \<Rightarrow>
            (case partition_py (items (heap w ! l)) left right r of
               (b, Inl e) \<Rightarrow> (w\<lparr>heap := (heap w)[l := PyDeque b], draws := draws w + 1\<rparr>, Inl e)
             | (b, Inr p) \<Rightarrow>
                 if k = p then (w\<lparr>heap := (heap w)[l := PyDeque b], draws := draws w + 1\<rparr>, getitem b k)
                 else if k < p
                   then quickselect rs (w\<lparr>heap := (heap w)[l := PyDeque b], draws := draws w + 1\<rparr>) l left (p - 1) k
                   else quickselect rs (w\<lparr>heap := (heap w)[l := PyDeque b], draws := draws w + 1\<rparr>) l (p + 1) right k)))"
  using assms
  by (simp add: quickselect.simps [of rs w l] as_deque_def Let_def split: sum.splits prod.splits)

lemma quickselect_deque_induct [consumes 2, case_names step]:
  assumes "is_deque (heap w ! l)" and "l < length (heap w)"
    and step: "\<And>w left right.
      is_deque (heap w ! l) \<Longrightarrow> l < length (heap w) \<Longrightarrow>
      (\<And>r b p. left \<noteq> right \<Longrightarrow> randint rs (draws w) left right = Inr r \<Longrightarrow>
          partition_py (items (heap w ! l)) left right r = (b, Inr p) \<Longrightarrow> k \<noteq> p \<Longrightarrow>
          P (w\<lparr>heap := (heap w)[l := PyDeque b], draws := draws w + 1\<rparr>)
            (if k < p then left else p + 1) (if k < p then p - 1 else right)) \<Longrightarrow>
      P w left right"
  shows "P w left right"
  using assms(1,2)
proof (induction "nat (right - left)" arbitrary: w left right rule: less_induct)
  case less
  show ?case
  proof (rule step [OF less.prems])
    fix r b p
    assume h: "left \<noteq> right" "randint rs (draws w) left right = Inr r"
      "partition_py (items (heap w ! l)) left right r = (b, Inr p)" "k \<noteq> p"
    from h(2) have lr: "left \<le> right" using randint_range by fastforce
    with h(3) have p: "left \<le> p" "p \<le> right" using partition_py_store by blast+
    let ?w = "w\<lparr>heap := (heap w)[l := PyDeque b], draws := draws w + 1\<rparr>"
    have d: "is_deque (heap ?w ! l)" "l < length (heap ?w)" using less.prems by simp_all
    have "nat ((if k < p then p - 1 else right) - (if k < p then left else p + 1)) < nat (right - left)"
      using p lr h(1) by auto
    from less.hyps [OF this d]
    show "P ?w (if k < p then left else p + 1) (if k < p then p - 1 else right)" .
  qed
qed

lemma quickselect_deque_heap:
  assumes "is_deque (heap w ! l)" and "l < length (heap w)"
  shows "length (heap (fst (quickselect rs w l left right k))) = length (heap w)
    \<and> (\<forall>a. a \<noteq> l \<longrightarrow> heap (fst (quickselect rs w l left right k)) ! a = heap w ! a)
    \<and> is_deque (heap (fst (quickselect rs w l left right k)) ! l)
    \<and> mset (items (heap (fst (quickselect rs w l left right k)) ! l)) = mset (items (heap w ! l))"
  using assms
proof (induction w left right rule: quickselect_deque_induct [where rs = rs and k = k])
  case (step w left right)
  let ?W = "\<lambda>b. w\<lparr>heap := (heap w)[l := PyDeque b], draws := draws w + 1\<rparr>"
  show ?case
  proof (cases "left = right")
    case True
    with step(1) show ?thesis by (simp add: quickselect_deque)
  next
    case ne: False
    show ?thesis
    proof (cases "randint rs (draws w) left right")
      case (Inl e)
      with ne step(1) show ?thesis by (simp add: quickselect_deque)
    next
      case (Inr r)
      obtain b res where pr: "partition_py (items (heap w ! l)) left right r = (b, res)"
        by (cases "partition_py (items (heap w ! l)) left right r")
      from partition_py_mset [OF pr] have ms: "mset b = mset (items (heap w ! l))" .
      have W: "length (heap (?W b)) = length (heap w)" "\<forall>a. a \<noteq> l \<longrightarrow> heap (?W b) ! a = heap w ! a"
        "is_deque (heap (?W b) ! l)" "mset (items (heap (?W b) ! l)) = mset (items (heap w ! l))"
        using step(2) ms by simp_all
      show ?thesis
      proof (cases res)
        case (Inl e)
        with ne step(1) Inr pr W show ?thesis by (simp add: quickselect_deque)
      next
        case p: (Inr p)
        show ?thesis
        proof (cases "k = p")
          case True
          with ne step(1) Inr pr p W show ?thesis by (simp add: quickselect_deque)
        next
          case False
          from step(3) [OF ne Inr pr [unfolded p] False] W
          show ?thesis using ne step(1) Inr pr p False
            by (simp add: quickselect_deque [OF step(1)] split: if_splits)
        qed
      qed
    qed
  qed
qed


lemma quickselect_deque_draws:
  assumes "is_deque (heap w ! l)" and "l < length (heap w)"
  shows "draws w \<le> draws (fst (quickselect rs w l left right k))
    \<and> draws (fst (quickselect rs w l left right k)) \<le> draws w + nat (right - left)"
  using assms
proof (induction w left right rule: quickselect_deque_induct [where rs = rs and k = k])
  case (step w left right)
  show ?case
  proof (cases "left = right")
    case True
    with step(1) show ?thesis by (simp add: quickselect_deque)
  next
    case ne: False
    show ?thesis
    proof (cases "randint rs (draws w) left right")
      case (Inl e)
      with ne step(1) show ?thesis by (simp add: quickselect_deque)
    next
      case (Inr r)
      then have lr: "left < right" using randint_range [of rs "draws w" left right r] ne by simp
      obtain b res where pr: "partition_py (items (heap w ! l)) left right r = (b, res)"
        by (cases "partition_py (items (heap w ! l)) left right r")
      show ?thesis
      proof (cases res)
        case (Inl e)
        with ne step(1) Inr pr lr show ?thesis by (simp add: quickselect_deque)
      next
        case p: (Inr p)
        from pr p lr have pb: "left \<le> p" "p \<le> right"
          using partition_py_store [of "items (heap w ! l)" left right r b p] by simp_all
        show ?thesis
        proof (cases "k = p")
          case True
          with ne step(1) Inr pr p lr show ?thesis by (simp add: quickselect_deque)
        next
          case False
          from step(3) [OF ne Inr pr [unfolded p] False] pb lr
          show ?thesis using ne step(1) Inr pr p False
            by (simp add: quickselect_deque [OF step(1)] split: if_splits) linarith+
        qed
      qed
    qed
  qed
qed

lemma quickselect_deque_result:
  assumes "is_deque (heap w ! l)" and "l < length (heap w)"
    and "0 \<le> left" and "right < int (length (items (heap w ! l)))"
  shows "(\<exists>v\<in>set (items (heap w ! l)). snd (quickselect rs w l left right k) = Inr v)
    \<or> (snd (quickselect rs w l left right k) = Inl ValueError \<and> \<not> (left \<le> k \<and> k \<le> right))"
  using assms
proof (induction w left right rule: quickselect_deque_induct [where rs = rs and k = k])
  case (step w left right)
  let ?xs = "items (heap w ! l)"
  show ?case
  proof (cases "left = right")
    case True
    with step(1,4,5) show ?thesis by (simp add: quickselect_deque getitem_valid)
  next
    case ne: False
    show ?thesis
    proof (cases "randint rs (draws w) left right")
      case (Inl e)
      then have "e = ValueError" "right < left" by (auto simp: randint_def split: if_splits)
      with Inl ne step(1) show ?thesis by (simp add: quickselect_deque)
    next
      case (Inr r)
      then have r: "left \<le> r" "r \<le> right" using randint_range [of rs "draws w" left right r] by simp_all
      from partition_py_valid [of left r right ?xs] step(4,5) r
      obtain b p where pr: "partition_py ?xs left right r = (b, Inr p)" by auto
      from partition_py_store [OF pr] r have pb: "left \<le> p" "p \<le> right" by simp_all
      from partition_py_mset [OF pr] have ms: "mset b = mset ?xs" .
      then have sb: "set b = set ?xs" and lb: "length b = length ?xs"
        by (rule mset_eq_setD, rule mset_eq_length)
      show ?thesis
      proof (cases "k = p")
        case True
        with pb step(4,5) lb have "getitem b k = Inr (b ! nat k)" by (simp add: getitem_valid)
        moreover have "b ! nat k \<in> set ?xs" using True pb step(4,5) lb sb
          by (metis nat_less_iff nth_mem order_le_less_trans order_trans)
        ultimately show ?thesis using ne step(1) Inr pr True by (simp add: quickselect_deque)
      next
        case False
        have "0 \<le> (if k < p then left else p + 1)"
          "(if k < p then p - 1 else right) < int (length (items (heap (w\<lparr>heap := (heap w)[l := PyDeque b], draws := draws w + 1\<rparr>) ! l)))"
          using pb step(2,4,5) lb by auto
        from step(3) [OF ne Inr pr False this] sb step(2) pb
        show ?thesis using ne step(1) Inr pr False
          by (simp add: quickselect_deque [OF step(1)] split: if_splits)
      qed
    qed
  qed
qed

lemma quickselect_frame:
  assumes "l < length (heap w)" and "a < length (heap w)"
    and "a \<noteq> l \<or> \<not> is_deque (heap w ! l)"
  shows "heap (fst (quickselect rs w l left right k)) ! a = heap w ! a"
proof (cases "is_deque (heap w ! l)")
  case True
  with assms quickselect_deque_heap [OF True assms(1), of rs left right k] show ?thesis by simp
next
  case False
  let ?w = "w\<lparr>heap := heap w @ [PyDeque (items (heap w ! l))]\<rparr>"
  have "is_deque (heap ?w ! length (heap w))" "length (heap w) < length (heap ?w)" by simp_all
  from quickselect_deque_heap [OF this, of rs left right k] assms(2)
  have "heap (fst (quickselect rs ?w (length (heap w)) left right k)) ! a = heap ?w ! a" by simp
  with assms(2) False show ?thesis by (simp add: quickselect_list nth_append)
qed

lemma quickselect_heap_length:
  assumes "l < length (heap w)"
  shows "length (heap (fst (quickselect rs w l left right k))) =
    (if is_deque (heap w ! l) then length (heap w) else length (heap w) + 1)"
proof (cases "is_deque (heap w ! l)")
  case True
  with quickselect_deque_heap [OF True assms, of rs left right k] show ?thesis by simp
next
  case False
  let ?w = "w\<lparr>heap := heap w @ [PyDeque (items (heap w ! l))]\<rparr>"
  have "is_deque (heap ?w ! length (heap w))" "length (heap w) < length (heap ?w)" by simp_all
  from quickselect_deque_heap [OF this, of rs left right k] False
  show ?thesis by (simp add: quickselect_list)
qed

lemma quickselect_draws:
  assumes "l < length (heap w)"
  shows "draws w \<le> draws (fst (quickselect rs w l left right k))
    \<and> draws (fst (quickselect rs w l left right k)) \<le> draws w + nat (right - left)"
proof (cases "is_deque (heap w ! l)")
  case True
  from quickselect_deque_draws [OF True assms] show ?thesis .
next
  case False
  let ?w = "w\<lparr>heap := heap w @ [PyDeque (items (heap w ! l))]\<rparr>"
  have "is_deque (heap ?w ! length (heap w))" "length (heap w) < length (heap ?w)" by simp_all
  from quickselect_deque_draws [OF this, of rs left right k] False
  show ?thesis by (simp add: quickselect_list)
qed

lemma quickselect_result:
  assumes "l < length (heap w)" and "0 \<le> left" and "right < int (length (items (heap w ! l)))"
  shows "(\<exists>v\<in>set (items (heap w ! l)). snd (quickselect rs w l left right k) = Inr v)
    \<or> (snd (quickselect rs w l left right k) = Inl ValueError \<and> \<not> (left \<le> k \<and> k \<le> right))"
proof (cases "is_deque (heap w ! l)")
  case True
  from quickselect_deque_result [OF True assms] show ?thesis .
next
  case False
  let ?w = "w\<lparr>heap := heap w @ [PyDeque (items (heap w ! l))]\<rparr>"
  have "is_deque (heap ?w ! length (heap w))" "length (heap w) < length (heap ?w)"
    "right < int (length (items (heap ?w ! length (heap w))))"
    using assms by simp_all
  from quickselect_deque_result [OF this(1,2) assms(2) this(3), of rs k] False
  show ?thesis by (simp add: quickselect_list)
qed

lemma quickselect_base:
  assumes "l < length (heap w)" and "0 \<le> left" and "left < int (length (items (heap w ! l)))"
  shows "snd (quickselect rs w l left left k) = Inr (items (heap w ! l) ! nat left)"
proof (cases "is_deque (heap w ! l)")
  case True
  with assms show ?thesis by (simp add: quickselect_deque getitem_valid)
next
  case False
  let ?w = "w\<lparr>heap := heap w @ [PyDeque (items (heap w ! l))]\<rparr>"
  have "is_deque (heap ?w ! length (heap w))" by simp
  from quickselect_deque [OF this, of rs left left k] False assms
  show ?thesis by (simp add: quickselect_list getitem_valid)
qed

lemma median_copy:
  "items (heap (w\<lparr>heap := heap w @ [PyList xs]\<rparr>) ! length (heap w)) = xs"
  "\<not> is_deque (heap (w\<lparr>heap := heap w @ [PyList xs]\<rparr>) ! length (heap w))"
  "length (heap w) < length (heap (w\<lparr>heap := heap w @ [PyList xs]\<rparr>))"
  by simp_all

lemma quickselect_list_kept:
  assumes "l < length (heap w)" and "\<not> is_deque (heap w ! l)"
  shows "heap (fst (quickselect rs w l left right k)) ! l = heap w ! l"
    and "l < length (heap (fst (quickselect rs w l left right k)))"
  using quickselect_frame [OF assms(1) assms(1), of rs left right k]
    quickselect_heap_length [OF assms(1), of rs left right k] assms by simp_all

lemma median_empty:
  assumes "items (heap w ! dat) = []"
  shows "median rs w dat = (w\<lparr>heap := heap w @ [PyList []]\<rparr>, Inl StatisticsError)"
  using assms by (simp add: median_def Let_def)

lemma median_nonempty_returns:
  assumes "items (heap w ! dat) \<noteq> []"
  shows "\<exists>v. snd (median rs w dat) = Inr v"
proof -
  let ?d = "length (heap w)"
  let ?xs = "items (heap w ! dat)"
  let ?w1 = "w\<lparr>heap := heap w @ [PyList ?xs]\<rparr>"
  let ?n = "int (length ?xs)"
  from assms have n: "0 < ?n" by simp
  have d1: "?d < length (heap ?w1)" "\<not> is_deque (heap ?w1 ! ?d)" "items (heap ?w1 ! ?d) = ?xs"
    by simp_all
  have sel1: "\<exists>v. snd (quickselect rs ?w1 ?d 0 (?n - 1) k) = Inr v" if "0 \<le> k" "k \<le> ?n - 1" for k
    using quickselect_result [OF d1(1), of 0 "?n - 1" rs k] d1(3) that by auto
  show ?thesis
  proof (cases "?n mod 2 = 1")
    case True
    have "0 \<le> ?n div 2" "?n div 2 \<le> ?n - 1" using n by presburger+
    from sel1 [OF this] True n show ?thesis by (simp add: median_def Let_def)
  next
    case False
    then have ev: "?n mod 2 = 0" by presburger
    with n have k: "0 \<le> ?n div 2 - 1" "?n div 2 - 1 \<le> ?n - 1" "0 \<le> ?n div 2" "?n div 2 \<le> ?n - 1"
      by presburger+
    obtain w2 r1 where c1: "quickselect rs ?w1 ?d 0 (?n - 1) (?n div 2 - 1) = (w2, r1)"
      by (cases "quickselect rs ?w1 ?d 0 (?n - 1) (?n div 2 - 1)")
    from sel1 [OF k(1,2)] c1 obtain x where x: "r1 = Inr x" by auto
    have d2: "?d < length (heap w2)" "heap w2 ! ?d = heap ?w1 ! ?d"
      using quickselect_list_kept [OF d1(1,2), of rs 0 "?n - 1" "?n div 2 - 1"] c1 by simp_all
    obtain w3 r2 where c2: "quickselect rs w2 ?d 0 (?n - 1) (?n div 2) = (w3, r2)"
      by (cases "quickselect rs w2 ?d 0 (?n - 1) (?n div 2)")
    have "items (heap w2 ! ?d) = ?xs" using d2(2) by simp
    with quickselect_result [OF d2(1), of 0 "?n - 1" rs "?n div 2"] k(3,4) c2
    obtain y where y: "r2 = Inr y" by auto
    from n False c1 c2 x y have "snd (median rs w dat) = Inr ((x + y) / 2)"
      by (simp add: median_def Let_def)
    then show ?thesis by blast
  qed
qed

section \<open>Claims\<close>

text \<open>
  C1 (violated by the code). The claim: for every non-empty sequence and every sequence
  of pivot choices, \<open>median\<close> returns the middle element of the sorted sequence (odd
  length) or the mean of the two central ones (even length). On
  \<open>median([1, 2, 3, 4, 5, 6, 9])\<close>, when \<open>randint(0, 6)\<close> gives 2 and then
  \<open>randint(3, 6)\<close> gives 4, the code returns 1; the middle element is 4.
\<close>

theorem C1_median_odd_wrong:
  "randint (draws_of [2, 1]) 0 0 6 = Inr 2 \<and> randint (draws_of [2, 1]) 1 3 6 = Inr 4
   \<and> snd (median (draws_of [2, 1]) \<lparr>heap = [PyList [1, 2, 3, 4, 5, 6, 9 :: rat]], draws = 0\<rparr> 0) = Inr 1
   \<and> sort [1, 2, 3, 4, 5, 6, 9 :: rat] ! 3 = 4"
  by code_simp

text \<open>
  C2 (violated by the code). The claim: for \<open>0 \<le> left \<le> pivotIndex \<le> right < length(q)\<close>,
  \<open>partition\<close> returns the final position of the pivot value, every element of
  \<open>[left, storeIndex)\<close> is less than the pivot value and every element of
  \<open>(storeIndex, right]\<close> is greater than or equal to it. The loop swaps
  \<open>q[store_index]\<close> with \<open>q[i]\<close>, where \<open>i\<close> counts from 0, instead of with
  \<open>q[left + i]\<close>, the position it has read. On \<open>partition([1, 5, 3, 4], 1, 3, 3)\<close>
  the pivot value 4 ends at index 2, with 5 to its left at index 1 and 3 to its right
  at index 3.
\<close>

theorem C2_partition_left_positive:
  "partition_py [1, 5, 3, 4 :: int] 1 3 3 = ([1, 5, 4, 3], Inr 2)"
  by code_simp

text \<open>
  C3 (violated by the code). The claim: \<open>partition\<close> leaves the positions outside
  \<open>[left, right]\<close> unchanged and keeps the multiset of the buffer. On
  \<open>partition([1, 2, 3, 4, 5, 6, 9], 3, 6, 4)\<close>, a call that
  \<open>median([1, 2, 3, 4, 5, 6, 9])\<close> makes, index 0 holds 4 afterwards instead of 1: the
  loop has swapped \<open>q[3]\<close> with \<open>q[0]\<close>.
\<close>

theorem C3_partition_outside_range:
  "partition_py [1, 2, 3, 4, 5, 6, 9 :: int] 3 6 4 = ([4, 2, 3, 1, 5, 6, 9], Inr 4)"
  by code_simp

text \<open>
  C4 (violated by the code). The claim: for an even length, \<open>median\<close> returns
  \<open>(a + b) / 2\<close> for the two central elements of the sorted order, and
  \<open>median([1, 2, 3, 4, 5, 6])\<close> is 3.5. When \<open>randint(0, 5)\<close> gives 2 in the first
  call, and \<open>randint(0, 5)\<close> gives 2 and \<open>randint(3, 5)\<close> gives 4 in the second, the
  code returns \<open>(3 + 1) / 2 = 2\<close>.
\<close>

theorem C4_median_even_wrong:
  "randint (draws_of [2, 2, 1]) 0 0 5 = Inr 2 \<and> randint (draws_of [2, 2, 1]) 1 0 5 = Inr 2
   \<and> randint (draws_of [2, 2, 1]) 2 3 5 = Inr 4
   \<and> median (draws_of [2, 2, 1]) \<lparr>heap = [PyList [1, 2, 3, 4, 5, 6 :: rat]], draws = 0\<rparr> 0
       = (\<lparr>heap = [PyList [1, 2, 3, 4, 5, 6], PyList [1, 2, 3, 4, 5, 6],
             PyDeque [1, 2, 3, 4, 5, 6], PyDeque [4, 2, 3, 1, 5, 6]], draws = 3\<rparr>, Inr 2)
   \<and> (sort [1, 2, 3, 4, 5, 6 :: rat] ! 2 + sort [1, 2, 3, 4, 5, 6 :: rat] ! 3) / 2 = 7 / 2"
  by code_simp

text \<open>
  C5 (as stated, refuted). The claim: in the even case the second call of \<open>quickselect\<close>
  works on the buffer that the first call has rearranged. In \<open>median([2, 1])\<close>, with the
  input as object 0 and the list \<open>data\<close> as object 1, the first call works on a deque
  of its own, object 2, and leaves it as \<open>[1, 2]\<close>, while the list is still \<open>[2, 1]\<close>;
  lines 28 to 30 of the second call then make another deque, object 3, which holds
  \<open>[2, 1]\<close>. The state that \<open>median\<close> leaves holds both deques.
\<close>

theorem C5_second_call_fresh_copy:
  "quickselect (draws_of []) \<lparr>heap = [PyList [2, 1 :: rat], PyList [2, 1]], draws = 0\<rparr> 1 0 1 0
     = (\<lparr>heap = [PyList [2, 1], PyList [2, 1], PyDeque [1, 2]], draws = 1\<rparr>, Inr 1)
   \<and> as_deque \<lparr>heap = [PyList [2, 1 :: rat], PyList [2, 1], PyDeque [1, 2]], draws = 1\<rparr> 1
     = (\<lparr>heap = [PyList [2, 1], PyList [2, 1], PyDeque [1, 2], PyDeque [2, 1]], draws = 1\<rparr>, 3)
   \<and> median (draws_of []) \<lparr>heap = [PyList [2, 1 :: rat]], draws = 0\<rparr> 0
     = (\<lparr>heap = [PyList [2, 1], PyList [2, 1], PyDeque [1, 2], PyDeque [1, 2]], draws = 2\<rparr>, Inr (3 / 2))"
  by code_simp

text \<open>
  C5 (amended). In the even case each of the two calls of \<open>quickselect\<close> is given the
  list \<open>data\<close>, which is not a deque, and copies it into a new deque of its own. The
  first call leaves the list as it was, so the second call is a call on a new deque
  that holds the items in their original order, not on the buffer that the first call
  rearranged.
\<close>

theorem C5_each_call_copies:
  assumes "items (heap w ! dat) = xs" and "xs \<noteq> []" and "even (length xs)"
  shows "\<exists>w2 r1.
      quickselect rs (w\<lparr>heap := heap w @ [PyList xs]\<rparr>) (length (heap w))
        0 (int (length xs) - 1) (int (length xs) div 2 - 1) = (w2, r1)
    \<and> heap w2 ! length (heap w) = PyList xs
    \<and> length (heap w) < length (heap w2)
    \<and> median rs w dat =
        (case r1 of
           Inl e \<Rightarrow> (w2, Inl e)
         | Inr x \<Rightarrow>
             (case quickselect rs (w2\<lparr>heap := heap w2 @ [PyDeque xs]\<rparr>) (length (heap w2))
                     0 (int (length xs) - 1) (int (length xs) div 2) of
                (w3, Inl e) \<Rightarrow> (w3, Inl e)
              | (w3, Inr y) \<Rightarrow> (w3, Inr ((x + y) / 2))))"
proof -
  let ?d = "length (heap w)"
  let ?w1 = "w\<lparr>heap := heap w @ [PyList xs]\<rparr>"
  let ?n = "int (length xs)"
  obtain w2 r1 where c1: "quickselect rs ?w1 ?d 0 (?n - 1) (?n div 2 - 1) = (w2, r1)"
    by (cases "quickselect rs ?w1 ?d 0 (?n - 1) (?n div 2 - 1)")
  have d1: "?d < length (heap ?w1)" "\<not> is_deque (heap ?w1 ! ?d)" by simp_all
  from quickselect_list_kept [OF d1, of rs 0 "?n - 1" "?n div 2 - 1"] c1
  have d2: "heap w2 ! ?d = PyList xs" "?d < length (heap w2)" by simp_all
  then have nd: "\<not> is_deque (heap w2 ! ?d)" by simp
  have second: "quickselect rs w2 ?d 0 (?n - 1) (?n div 2)
      = quickselect rs (w2\<lparr>heap := heap w2 @ [PyDeque xs]\<rparr>) (length (heap w2)) 0 (?n - 1) (?n div 2)"
    using quickselect_list [OF nd, of rs 0 "?n - 1" "?n div 2"] d2(1) by simp
  from assms(3) have ev: "?n mod 2 \<noteq> 1" by presburger
  from assms(2) have ne: "?n \<noteq> 0" by simp
  have "median rs w dat =
        (case r1 of
           Inl e \<Rightarrow> (w2, Inl e)
         | Inr x \<Rightarrow>
             (case quickselect rs (w2\<lparr>heap := heap w2 @ [PyDeque xs]\<rparr>) (length (heap w2))
                     0 (?n - 1) (?n div 2) of
                (w3, Inl e) \<Rightarrow> (w3, Inl e)
              | (w3, Inr y) \<Rightarrow> (w3, Inr ((x + y) / 2))))"
    using assms(1) ev ne c1 second by (simp add: median_def Let_def split: sum.splits)
  with c1 d2 show ?thesis by blast
qed

theorem C5_each_call_copies_witness:
  "median (draws_of []) \<lparr>heap = [PyList [2, 1 :: rat]], draws = 0\<rparr> 0 =
     (case quickselect (draws_of [])
             \<lparr>heap = [PyList [2, 1 :: rat], PyList [2, 1], PyDeque [1, 2], PyDeque [2, 1]], draws = 1\<rparr>
             3 0 1 1 of
        (w3, Inl e) \<Rightarrow> (w3, Inl e)
      | (w3, Inr y) \<Rightarrow> (w3, Inr ((1 + y) / 2)))"
proof -
  have c1: "quickselect (draws_of []) \<lparr>heap = [PyList [2, 1 :: rat], PyList [2, 1]], draws = 0\<rparr> 1 0 1 0
     = (\<lparr>heap = [PyList [2, 1], PyList [2, 1], PyDeque [1, 2]], draws = 1\<rparr>, Inr 1)"
    by code_simp
  from C5_each_call_copies [of "\<lparr>heap = [PyList [2, 1 :: rat]], draws = 0\<rparr>" 0 "[2, 1]" "draws_of []"]
  show ?thesis using c1 by (simp add: numeral_3_eq_3)
qed

text \<open>
  C6 (as stated, refuted). The claim: a call whose \<open>k\<close> lies outside \<open>[left, right]\<close>
  fails with an out-of-range error. \<open>quickselect([5], 0, 0, 3)\<close> returns 5.
\<close>

theorem C6_rank_out_of_range_returns:
  "\<not> (0 \<le> (3::int) \<and> (3::int) \<le> 0)
   \<and> snd (quickselect (draws_of []) \<lparr>heap = [PyList [5 :: int]], draws = 0\<rparr> 0 0 0 3) = Inr 5"
  by code_simp

text \<open>
  C6 (amended). \<open>quickselect\<close> never compares \<open>k\<close> with \<open>left\<close> and \<open>right\<close>, and there
  is no rank error. For \<open>0 \<le> left \<le> right < length(buffer)\<close> and \<open>k\<close> outside
  \<open>[left, right]\<close>: a call with \<open>left = right\<close> returns the element at \<open>left\<close>, and
  every call either returns an element of the buffer or ends with the \<open>ValueError\<close>
  that \<open>random.randint\<close> raises once the recursion has reached an empty range.
\<close>

theorem C6_no_rank_check:
  assumes "l < length (heap w)" and "0 \<le> left" and "left \<le> right"
    and "right < int (length (items (heap w ! l)))" and "k < left \<or> right < k"
  shows "(left = right \<longrightarrow> snd (quickselect rs w l left right k) = Inr (items (heap w ! l) ! nat left))
    \<and> ((\<exists>v\<in>set (items (heap w ! l)). snd (quickselect rs w l left right k) = Inr v)
         \<or> snd (quickselect rs w l left right k) = Inl ValueError)"
proof -
  have "snd (quickselect rs w l left right k) = Inr (items (heap w ! l) ! nat left)" if "left = right"
    using quickselect_base [OF assms(1,2), of rs k] assms(4) that by simp
  moreover have "(\<exists>v\<in>set (items (heap w ! l)). snd (quickselect rs w l left right k) = Inr v)
         \<or> snd (quickselect rs w l left right k) = Inl ValueError"
    using quickselect_result [OF assms(1,2,4), of rs k] by blast
  ultimately show ?thesis by blast
qed

theorem C6_no_rank_check_witness:
  "snd (quickselect (draws_of [0, 0]) \<lparr>heap = [PyList [1, 2, 3 :: int]], draws = 0\<rparr> 0 0 2 7) = Inr 3
   \<and> snd (quickselect (draws_of [2]) \<lparr>heap = [PyList [1, 2, 3 :: int]], draws = 0\<rparr> 0 0 2 7) = Inl ValueError
   \<and> snd (quickselect (draws_of []) \<lparr>heap = [PyList [1, 2, 3 :: int]], draws = 0\<rparr> 0 1 1 7) = Inr 2"
proof -
  have a: "snd (quickselect (draws_of [0, 0]) \<lparr>heap = [PyList [1, 2, 3 :: int]], draws = 0\<rparr> 0 0 2 7) = Inr 3"
    by code_simp
  have b: "snd (quickselect (draws_of [2]) \<lparr>heap = [PyList [1, 2, 3 :: int]], draws = 0\<rparr> 0 0 2 7) = Inl ValueError"
    by code_simp
  from C6_no_rank_check [of 0 "\<lparr>heap = [PyList [1, 2, 3 :: int]], draws = 0\<rparr>" 1 1 7 "draws_of []"]
  have "snd (quickselect (draws_of []) \<lparr>heap = [PyList [1, 2, 3 :: int]], draws = 0\<rparr> 0 1 1 7) = Inr 2"
    by simp
  with a b show ?thesis by simp
qed

text \<open>
  C7. \<open>median\<close> does not mutate its input: every object that exists when
  \<open>median(data)\<close> is called, the collection \<open>data\<close> among them, holds the same items in
  the same order in the state the call leaves, whether it returns or raises.
\<close>

theorem C7_median_keeps_input:
  assumes "a < length (heap w)"
  shows "heap (fst (median rs w dat)) ! a = heap w ! a"
proof -
  let ?d = "length (heap w)"
  let ?xs = "items (heap w ! dat)"
  let ?w1 = "w\<lparr>heap := heap w @ [PyList ?xs]\<rparr>"
  let ?n = "int (length ?xs)"
  have a1: "a < length (heap ?w1)" "heap ?w1 ! a = heap w ! a"
    using assms by (simp_all add: nth_append)
  have d1: "?d < length (heap ?w1)" "\<not> is_deque (heap ?w1 ! ?d)" by simp_all
  have first: "heap (fst (quickselect rs ?w1 ?d l r k)) ! a = heap w ! a" for l r k
    using quickselect_frame [OF d1(1) a1(1), of rs l r k] d1(2) a1(2) by simp
  have second: "heap (fst (quickselect rs (fst (quickselect rs ?w1 ?d l r k)) ?d l' r' k')) ! a = heap w ! a"
    for l r k l' r' k'
  proof -
    let ?w2 = "fst (quickselect rs ?w1 ?d l r k)"
    have d2: "?d < length (heap ?w2)" "\<not> is_deque (heap ?w2 ! ?d)"
      using quickselect_list_kept [OF d1, of rs l r k] d1(2) by simp_all
    have a2: "a < length (heap ?w2)" using d2(1) assms by simp
    from quickselect_frame [OF d2(1) a2, of rs l' r' k'] d2(2) first [of l r k]
    show ?thesis by simp
  qed
  show ?thesis
  proof (cases "?n = 0")
    case True
    with a1 show ?thesis by (simp add: median_def Let_def)
  next
    case ne: False
    show ?thesis
    proof (cases "?n mod 2 = 1")
      case True
      with ne first show ?thesis by (simp add: median_def Let_def)
    next
      case False
      obtain w2 r1 where c1: "quickselect rs ?w1 ?d 0 (?n - 1) (?n div 2 - 1) = (w2, r1)"
        by (cases "quickselect rs ?w1 ?d 0 (?n - 1) (?n div 2 - 1)")
      obtain w3 r2 where c2: "quickselect rs w2 ?d 0 (?n - 1) (?n div 2) = (w3, r2)"
        by (cases "quickselect rs w2 ?d 0 (?n - 1) (?n div 2)")
      from first [of 0 "?n - 1" "?n div 2 - 1"] c1 have h2: "heap w2 ! a = heap w ! a" by simp
      from second [of 0 "?n - 1" "?n div 2 - 1" 0 "?n - 1" "?n div 2"] c1 c2
      have h3: "heap w3 ! a = heap w ! a" by simp
      from ne False c1 c2 h2 h3 show ?thesis
        by (simp add: median_def Let_def split: sum.splits)
    qed
  qed
qed

theorem C7_median_keeps_input_witness:
  "(0::nat) < length (heap \<lparr>heap = [PyList [0, 5, 3, 4, 9 :: rat]], draws = 0\<rparr>) \<and>
   heap (fst (median (draws_of [0, 0, 0])
      \<lparr>heap = [PyList [0, 5, 3, 4, 9 :: rat]], draws = 0\<rparr> 0)) ! 0 = PyList [0, 5, 3, 4, 9]"
  using C7_median_keeps_input
    [of 0 "\<lparr>heap = [PyList [0, 5, 3, 4, 9 :: rat]], draws = 0\<rparr>" "draws_of [0, 0, 0]" 0]
  by simp

text \<open>
  C8. \<open>median\<close> raises \<open>StatisticsError\<close>, an error kind of its own, exactly when its
  input has no elements. It does so before any selection work: the state it leaves
  holds the list made by \<open>list(data)\<close> and nothing else new, no deque has been made and
  no random number drawn; and no value is returned.
\<close>

theorem C8_median_empty_input:
  "(snd (median rs w dat) = Inl StatisticsError \<longleftrightarrow> items (heap w ! dat) = [])
   \<and> (items (heap w ! dat) = [] \<longrightarrow>
        median rs w dat = (w\<lparr>heap := heap w @ [PyList []]\<rparr>, Inl StatisticsError))"
proof -
  have "snd (median rs w dat) \<noteq> Inl StatisticsError" if "items (heap w ! dat) \<noteq> []"
    using median_nonempty_returns [OF that, of rs] by auto
  then show ?thesis using median_empty [of w dat rs] by auto
qed

theorem C8_median_empty_input_witness:
  "median (draws_of []) \<lparr>heap = [PyList ([] :: rat list)], draws = 0\<rparr> 0
     = (\<lparr>heap = [PyList [], PyList []], draws = 0\<rparr>, Inl StatisticsError)
   \<and> snd (median (draws_of []) \<lparr>heap = [PyList [42 :: rat]], draws = 0\<rparr> 0) \<noteq> Inl StatisticsError"
  using C8_median_empty_input [of "draws_of []" "\<lparr>heap = [PyList ([] :: rat list)], draws = 0\<rparr>" 0]
    C8_median_empty_input [of "draws_of []" "\<lparr>heap = [PyList [42 :: rat]], draws = 0\<rparr>" 0]
  by simp

text \<open>
  C9. For a call of \<open>quickselect\<close> with \<open>0 \<le> left \<le> k \<le> right < length(buffer)\<close> and
  every random source: the call returns a value; it makes at most \<open>right - left\<close> draws,
  one for each partitioning step; and whatever pivot \<open>randint\<close> picks, both halves
  \<open>[left, p - 1]\<close> and \<open>[p + 1, right]\<close> that a recursive call can be given are
  strictly shorter than \<open>[left, right]\<close>, since they leave out the pivot position \<open>p\<close>.
\<close>

theorem C9_quickselect_terminates:
  assumes "l < length (heap w)" and "0 \<le> left" and "left \<le> k" and "k \<le> right"
    and "right < int (length (items (heap w ! l)))"
  shows "(\<exists>v. snd (quickselect rs w l left right k) = Inr v)
    \<and> draws (fst (quickselect rs w l left right k)) \<le> draws w + nat (right - left)
    \<and> (\<forall>r b p. left \<noteq> right \<and> randint rs (draws w) left right = Inr r
          \<and> partition_py (items (heap w ! l)) left right r = (b, Inr p)
          \<longrightarrow> nat ((p - 1) - left) < nat (right - left) \<and> nat (right - (p + 1)) < nat (right - left))"
proof -
  have "\<exists>v. snd (quickselect rs w l left right k) = Inr v"
    using quickselect_result [OF assms(1,2,5), of rs k] assms(3,4) by auto
  moreover have "draws (fst (quickselect rs w l left right k)) \<le> draws w + nat (right - left)"
    using quickselect_draws [OF assms(1)] by simp
  moreover have "nat ((p - 1) - left) < nat (right - left) \<and> nat (right - (p + 1)) < nat (right - left)"
    if "left \<noteq> right" "randint rs (draws w) left right = Inr r"
      "partition_py (items (heap w ! l)) left right r = (b, Inr p)" for r b p
  proof -
    from that(2) have "left \<le> right" using randint_range by fastforce
    with partition_py_store [OF that(3)] that(1) show ?thesis by auto
  qed
  ultimately show ?thesis by blast
qed

theorem C9_quickselect_terminates_witness:
  "snd (quickselect (draws_of [0, 0, 0]) \<lparr>heap = [PyList [0, 5, 3, 4, 9 :: int]], draws = 0\<rparr> 0 0 4 2) = Inr 9
   \<and> draws (fst (quickselect (draws_of [0, 0, 0]) \<lparr>heap = [PyList [0, 5, 3, 4, 9 :: int]], draws = 0\<rparr> 0 0 4 2)) = 3
   \<and> partition_py [0, 5, 3, 4, 9 :: int] 0 4 0 = ([0, 5, 3, 4, 9], Inr 0)"
proof -
  have e: "quickselect (draws_of [0, 0, 0]) \<lparr>heap = [PyList [0, 5, 3, 4, 9 :: int]], draws = 0\<rparr> 0 0 4 2
    = (\<lparr>heap = [PyList [0, 5, 3, 4, 9], PyDeque [3, 0, 9, 5, 4]], draws = 3\<rparr>, Inr 9)"
    by code_simp
  have p: "partition_py [0, 5, 3, 4, 9 :: int] 0 4 0 = ([0, 5, 3, 4, 9], Inr 0)" by code_simp
  have r: "randint (draws_of [0, 0, 0]) 0 0 4 = Inr 0" by code_simp
  from C9_quickselect_terminates
    [of 0 "\<lparr>heap = [PyList [0, 5, 3, 4, 9 :: int]], draws = 0\<rparr>" 0 2 4 "draws_of [0, 0, 0]"]
  have "nat ((0 - 1) - 0) < nat (4 - (0::int)) \<and> nat (4 - (0 + 1)) < nat (4 - (0::int))"
    using r p by simp
  with e p show ?thesis by simp
qed

text \<open>
  C10. For a call of \<open>quickselect\<close> with \<open>0 \<le> left \<le> k \<le> right < length(buffer)\<close> and
  every random source, no indexing of the buffer raises \<open>IndexError\<close>: the call returns
  an element of the buffer. For every pivot index of \<open>[left, right]\<close>, every index that
  \<open>partition\<close> uses lies in \<open>[0, length(buffer) - 1]\<close>, and \<open>partition\<close> returns a
  store index \<open>p\<close> with \<open>left \<le> p \<le> right\<close> and keeps the length of the buffer. The
  indices that \<open>quickselect\<close> itself uses are \<open>left\<close> and \<open>k\<close>, within the bounds by
  assumption, and the arguments of the recursive call satisfy the same bounds again.
\<close>

theorem C10_no_out_of_bounds:
  assumes "l < length (heap w)" and "0 \<le> left" and "left \<le> k" and "k \<le> right"
    and "right < int (length (items (heap w ! l)))"
  shows "(\<exists>v\<in>set (items (heap w ! l)). snd (quickselect rs w l left right k) = Inr v)
    \<and> (\<forall>pivot_index. left \<le> pivot_index \<and> pivot_index \<le> right \<longrightarrow>
          (\<forall>x\<in>set (partition_indices (items (heap w ! l)) left right pivot_index).
              0 \<le> x \<and> x < int (length (items (heap w ! l))))
          \<and> (\<exists>b p. partition_py (items (heap w ! l)) left right pivot_index = (b, Inr p)
                \<and> left \<le> p \<and> p \<le> right \<and> length b = length (items (heap w ! l))
                \<and> (k < p \<longrightarrow> 0 \<le> left \<and> left \<le> k \<and> k \<le> p - 1 \<and> p - 1 < int (length b))
                \<and> (p < k \<longrightarrow> 0 \<le> p + 1 \<and> p + 1 \<le> k \<and> k \<le> right \<and> right < int (length b))))"
proof -
  let ?xs = "items (heap w ! l)"
  have "\<exists>v\<in>set ?xs. snd (quickselect rs w l left right k) = Inr v"
    using quickselect_result [OF assms(1,2,5), of rs k] assms(3,4) by auto
  moreover have "(\<forall>x\<in>set (partition_indices ?xs left right pivot_index). 0 \<le> x \<and> x < int (length ?xs))
          \<and> (\<exists>b p. partition_py ?xs left right pivot_index = (b, Inr p)
                \<and> left \<le> p \<and> p \<le> right \<and> length b = length ?xs
                \<and> (k < p \<longrightarrow> 0 \<le> left \<and> left \<le> k \<and> k \<le> p - 1 \<and> p - 1 < int (length b))
                \<and> (p < k \<longrightarrow> 0 \<le> p + 1 \<and> p + 1 \<le> k \<and> k \<le> right \<and> right < int (length b)))"
    if "left \<le> pivot_index" "pivot_index \<le> right" for pivot_index
  proof -
    from partition_py_valid [OF assms(2) that assms(5)] obtain b p where
      pr: "partition_py ?xs left right pivot_index = (b, Inr p)" by blast
    from partition_py_store [OF pr] that have p: "left \<le> p" "p \<le> right" by simp_all
    from partition_py_mset [OF pr] have len: "length b = length ?xs"
      by (rule mset_eq_length)
    have "(k < p \<longrightarrow> 0 \<le> left \<and> left \<le> k \<and> k \<le> p - 1 \<and> p - 1 < int (length b))
        \<and> (p < k \<longrightarrow> 0 \<le> p + 1 \<and> p + 1 \<le> k \<and> k \<le> right \<and> right < int (length b))"
      using p len assms(2-5) by auto
    with pr p len partition_indices_valid [OF assms(2) that assms(5)] show ?thesis by blast
  qed
  ultimately show ?thesis by blast
qed

theorem C10_no_out_of_bounds_witness:
  "snd (quickselect (draws_of [2, 1]) \<lparr>heap = [PyList [1, 2, 3, 4, 5, 6, 9 :: int]], draws = 0\<rparr> 0 0 6 3) = Inr 1
   \<and> partition_py [1, 2, 3, 4, 5, 6, 9 :: int] 0 6 2 = ([1, 2, 3, 4, 5, 6, 9], Inr 2)
   \<and> set (partition_indices [1, 2, 3, 4, 5, 6, 9 :: int] 0 6 2) \<subseteq> {0..6}"
proof -
  have e: "snd (quickselect (draws_of [2, 1]) \<lparr>heap = [PyList [1, 2, 3, 4, 5, 6, 9 :: int]], draws = 0\<rparr> 0 0 6 3) = Inr 1"
    by code_simp
  have p: "partition_py [1, 2, 3, 4, 5, 6, 9 :: int] 0 6 2 = ([1, 2, 3, 4, 5, 6, 9], Inr 2)"
    by code_simp
  from C10_no_out_of_bounds
    [of 0 "\<lparr>heap = [PyList [1, 2, 3, 4, 5, 6, 9 :: int]], draws = 0\<rparr>" 0 3 6 "draws_of [2, 1]"]
  have "\<forall>pivot_index. 0 \<le> pivot_index \<and> pivot_index \<le> 6 \<longrightarrow>
      (\<forall>x\<in>set (partition_indices [1, 2, 3, 4, 5, 6, 9 :: int] 0 6 pivot_index). 0 \<le> x \<and> x < 7)"
    by simp
  from this [THEN spec, of 2]
  have "\<forall>x\<in>set (partition_indices [1, 2, 3, 4, 5, 6, 9 :: int] 0 6 2). 0 \<le> x \<and> x < 7"
    by simp
  then have "set (partition_indices [1, 2, 3, 4, 5, 6, 9 :: int] 0 6 2) \<subseteq> {0..6}"
    by auto
  with e p show ?thesis by simp
qed

end
